theory Spec2Isabelle
  imports Main "HOL-Library.Sublist"
begin

section \<open>stagit-highlight: a shallow embedding of \<^verbatim>\<open>stagit-highlight.py\<close>\<close>

text \<open>
  The script post-processes the HTML pages written by stagit: \<^verbatim>\<open>traverse_repository\<close>
  walks a directory tree and calls \<^verbatim>\<open>highlight_file\<close> on the pages, which rewrites a page
  in place in two passes over its lines.

  Strings are \<^typ>\<open>string\<close>. A file's text is the text Python's text mode delivers: decoded,
  with line ends already translated to the line feed \<open>CHR 0x0A\<close>. The three library calls
  the script cannot do without (\<^verbatim>\<open>pygments.lexers.get_lexer_for_filename\<close>,
  \<^verbatim>\<open>html.unescape\<close>, \<^verbatim>\<open>pygments.highlight\<close>) are parameters of the model.
\<close>

subsection \<open>Status codes and exceptions\<close>

definition SUCCESS :: int where
  "SUCCESS = 0"

definition FAILURE :: int where
  "FAILURE = 1"

text \<open>The exceptions that leave \<^verbatim>\<open>highlight_file\<close> or \<^verbatim>\<open>traverse_repository\<close> uncaught.\<close>

datatype exn = FileNotFoundError | UnicodeDecodeError | IndexError

subsection \<open>Python's string methods\<close>

definition nl :: char where
  "nl = CHR 0x0A"

text \<open>\<^verbatim>\<open>s.removesuffix(suf)\<close> and \<^verbatim>\<open>s.removeprefix(pre)\<close>.\<close>

definition removesuffix :: "string \<Rightarrow> string \<Rightarrow> string" where
  "removesuffix suf s = (if suf \<noteq> [] \<and> suffix suf s then take (length s - length suf) s else s)"

definition removeprefix :: "string \<Rightarrow> string \<Rightarrow> string" where
  "removeprefix pre s = (if prefix pre s then drop (length pre) s else s)"

text \<open>
  \<^verbatim>\<open>s.replace(old, new)\<close>: every occurrence of \<open>old\<close>, found from the left and not
  overlapping, becomes \<open>new\<close>. (With an empty \<open>old\<close>, Python puts \<open>new\<close> before every
  character and at the end.)
\<close>

function replace :: "string \<Rightarrow> string \<Rightarrow> string \<Rightarrow> string" where
  "replace old new [] = (if old = [] then new else [])"
| "replace old new (c # cs) =
     (if old = [] then new @ c # replace old new cs
      else if prefix old (c # cs) then new @ replace old new (drop (length old) (c # cs))
      else c # replace old new cs)"
  by pat_completeness auto
termination
  by (relation "measure (\<lambda>(old, new, s). length s)") auto

text \<open>\<^verbatim>\<open>s.split("\n")\<close>: the pieces between line feeds; never an empty list.\<close>

fun split_nl :: "string \<Rightarrow> string list" where
  "split_nl [] = [[]]"
| "split_nl (c # cs) =
     (if c = nl then [] # split_nl cs
      else (case split_nl cs of [] \<Rightarrow> [[c]] | l # ls \<Rightarrow> (c # l) # ls))"

text \<open>
  The lines of a text as \<^verbatim>\<open>readlines()\<close> and \<^verbatim>\<open>fileinput\<close> deliver them: each line
  keeps its line feed, and only the last line may lack one.
\<close>

fun readlines :: "string \<Rightarrow> string list" where
  "readlines [] = []"
| "readlines (c # cs) =
     (if c = nl then [c] # readlines cs
      else (case readlines cs of [] \<Rightarrow> [[c]] | l # ls \<Rightarrow> (c # l) # ls))"

subsection \<open>The regular expressions\<close>

text \<open>
  \<^verbatim>\<open>re.match\<close> matches at the start of the line and backtracks. The four patterns of the
  script are built from the pieces below, each in continuation-passing style: a piece
  consumes a prefix of the string and hands the rest to the continuation \<open>k\<close>; where the
  continuation fails, a starred piece gives characters back, longest match first, as the
  \<^verbatim>\<open>re\<close> module does. A dot matches every character but the line feed.
\<close>

fun re_lit :: "string \<Rightarrow> (string \<Rightarrow> 'a option) \<Rightarrow> string \<Rightarrow> 'a option" where
  "re_lit [] k s = k s"
| "re_lit (p # ps) k [] = None"
| "re_lit (p # ps) k (c # cs) = (if p = c then re_lit ps k cs else None)"

text \<open>\<open>X*\<close> for a character class \<open>X\<close>, and \<open>X+\<close> as \<open>XX*\<close>.\<close>

fun re_star :: "(char \<Rightarrow> bool) \<Rightarrow> (string \<Rightarrow> 'a option) \<Rightarrow> string \<Rightarrow> 'a option" where
  "re_star P k [] = k []"
| "re_star P k (c # cs) =
     (if P c then (case re_star P k cs of Some r \<Rightarrow> Some r | None \<Rightarrow> k (c # cs))
      else k (c # cs))"

definition re_plus :: "(char \<Rightarrow> bool) \<Rightarrow> (string \<Rightarrow> 'a option) \<Rightarrow> string \<Rightarrow> 'a option" where
  "re_plus P k s = (case s of [] \<Rightarrow> None | c # cs \<Rightarrow> if P c then re_star P k cs else None)"

definition digit :: "char \<Rightarrow> bool" where
  "digit c = (c \<in> set ''0123456789'')"

definition space :: "char \<Rightarrow> bool" where
  "space c = (c = CHR '' '')"

definition dot :: "char \<Rightarrow> bool" where
  "dot c = (c \<noteq> nl)"

text \<open>A single dot.\<close>

definition re_dot :: "(string \<Rightarrow> 'a option) \<Rightarrow> string \<Rightarrow> 'a option" where
  "re_dot k s = (case s of [] \<Rightarrow> None | c # cs \<Rightarrow> if dot c then k cs else None)"

text \<open>\<^verbatim>\<open>(../)*\<close>: the dots are not escaped, so a repetition is any two characters and a slash.\<close>

fun re_updirs :: "(string \<Rightarrow> 'a option) \<Rightarrow> string \<Rightarrow> 'a option" where
  "re_updirs k (a # b # c # cs) =
     (if dot a \<and> dot b \<and> c = CHR ''/''
      then (case re_updirs k cs of Some r \<Rightarrow> Some r | None \<Rightarrow> k (a # b # c # cs))
      else k (a # b # c # cs))"
| "re_updirs k s = k s"

text \<open>\<^verbatim>\<open>$\<close> (no MULTILINE flag): the end of the string, or just before a line feed that ends it.\<close>

definition re_eol :: "string \<Rightarrow> unit option" where
  "re_eol s = (if s = [] \<or> s = [nl] then Some () else None)"

text \<open>
  Line 45: \<^verbatim>\<open><a href="#l[0-9]+" class="line" id="l[0-9]+"> *[0-9]+</a> (.*)\<close>.
  The continuation is what follows \<^verbatim>\<open></a> \<close>.
\<close>

definition re_anchor :: "(string \<Rightarrow> 'a option) \<Rightarrow> string \<Rightarrow> 'a option" where
  \<open>re_anchor k =
     re_lit ''<a href="#l'' (re_plus digit (re_lit ''" class="line" id="l'' (re_plus digit
       (re_lit ''">'' (re_star space (re_plus digit (re_lit ''</a> '' k)))))))\<close>

text \<open>
  The match of line 45 and its group 1: the final \<^verbatim>\<open>(.*)\<close> takes every character up to
  the line feed.
\<close>

definition match_code :: "string \<Rightarrow> string option" where
  "match_code line = re_anchor (\<lambda>r. Some (takeWhile dot r)) line"

text \<open>
  The match of line 78, \<^verbatim>\<open>(<a href="#l[0-9]+" class="line" id="l[0-9]+"> *[0-9]+</a> )\<close>,
  and its group 1: the part of the line that the pattern consumed.
\<close>

definition match_prefix :: "string \<Rightarrow> string option" where
  "match_prefix line = re_anchor (\<lambda>r. Some (take (length line - length r) line)) line"

text \<open>Line 50: \<^verbatim>\<open><link rel="stylesheet" type="text/css" href="(../)*style.css"/>$\<close>.\<close>

definition match_stylesheet :: "string \<Rightarrow> bool" where
  \<open>match_stylesheet line =
     (re_lit ''<link rel="stylesheet" type="text/css" href="'' (re_updirs (re_lit ''style''
        (re_dot (re_lit ''css"/>'' re_eol)))) line \<noteq> None)\<close>

text \<open>Line 63: \<^verbatim>\<open><p> .* <a href="(../)*raw/.*">raw</a></p><hr/><pre id=blob">$\<close>.\<close>

definition match_rawlink :: "string \<Rightarrow> bool" where
  \<open>match_rawlink line =
     (re_lit ''<p> '' (re_star dot (re_lit '' <a href="'' (re_updirs (re_lit ''raw/''
        (re_star dot (re_lit ''">raw</a></p><hr/><pre id=blob">'' re_eol)))))) line \<noteq> None)\<close>

subsection \<open>Pass 1 (lines 40 to 66)\<close>

text \<open>
  The loop's variables, and the strings it has printed into the file, one for each line
  read: every branch of the loop body prints exactly once.
\<close>

record pass1_state =
  code :: string
  in_content :: bool
  written :: "string list"

definition py_print :: "string \<Rightarrow> pass1_state \<Rightarrow> pass1_state" where
  "py_print s st = st\<lparr>written := written st @ [s]\<rparr>"

definition pass1_step :: "pass1_state \<Rightarrow> string \<Rightarrow> pass1_state" where
  \<open>pass1_step st0 line =
     (let st = (case match_code line of
                  Some g \<Rightarrow> st0\<lparr>code := code st0 @ g @ [nl]\<rparr>
                | None \<Rightarrow> st0)
      in if match_stylesheet line then
           py_print (line @ replace ''style.css'' ''syntax.css'' line) st
         else if line = ''<div id="content">'' @ [nl] then
           py_print line (st\<lparr>in_content := True\<rparr>)
         else if \<not> in_content st then
           py_print line st
         else if line = ''</div>'' @ [nl] then
           py_print (line @ ''</div>'') st
         else if match_rawlink line then
           py_print (replace ''<hr/>'' ''<hr/><div class="highlight">'' line) st
         else
           py_print line st)\<close>

definition pass1 :: "string list \<Rightarrow> pass1_state" where
  "pass1 lines = foldl pass1_step \<lparr>code = [], in_content = False, written = []\<rparr> lines"

subsection \<open>The highlighter's lines (lines 69 to 73)\<close>

text \<open>The external collaborators; \<open>'lx\<close> is the type of lexers, \<open>None\<close> is \<^verbatim>\<open>ClassNotFound\<close>.\<close>

record 'lx env =
  get_lexer_for_filename :: "string \<Rightarrow> 'lx option"
  html_unescape :: "string \<Rightarrow> string"
  pygments_highlight :: "string \<Rightarrow> 'lx \<Rightarrow> string"

definition codelines :: "'lx env \<Rightarrow> 'lx \<Rightarrow> string \<Rightarrow> string list" where
  \<open>codelines E lexer buf =
     split_nl (removeprefix ''<div class="highlight"><pre>''
       (pygments_highlight E (html_unescape E buf) lexer))\<close>

subsection \<open>Pass 2 (lines 76 to 82)\<close>

text \<open>
  The cursor \<open>j\<close>, the strings printed, and the \<^verbatim>\<open>IndexError\<close> of \<^verbatim>\<open>codelines[j]\<close>
  when \<open>j\<close> is past the end (\<open>j\<close> is never negative). \<^verbatim>\<open>print\<close> without \<^verbatim>\<open>end=""\<close>
  adds a line feed.
\<close>

record pass2_state =
  raised :: "exn option"
  cursor :: nat
  emitted :: "string list"

fun pass2_loop :: "string list \<Rightarrow> pass2_state \<Rightarrow> string list \<Rightarrow> pass2_state" where
  "pass2_loop cl st [] = st"
| "pass2_loop cl st (line # rest) =
     (case match_prefix line of
        Some p \<Rightarrow>
          if cursor st < length cl
          then pass2_loop cl (st\<lparr>cursor := cursor st + 1,
                                emitted := emitted st @ [p @ cl ! cursor st @ [nl]]\<rparr>) rest
          else st\<lparr>raised := Some IndexError\<rparr>
      | None \<Rightarrow> pass2_loop cl (st\<lparr>emitted := emitted st @ [line]\<rparr>) rest)"

definition pass2 :: "string list \<Rightarrow> string list \<Rightarrow> pass2_state" where
  "pass2 cl lines = pass2_loop cl \<lparr>raised = None, cursor = 0, emitted = []\<rparr> lines"

subsection \<open>\<^verbatim>\<open>highlight_file\<close>\<close>

text \<open>
  A file, as \<^verbatim>\<open>open\<close> and \<^verbatim>\<open>readlines\<close> find it: a text, a file that cannot be opened or
  read (\<^verbatim>\<open>OSError\<close>, of which \<^verbatim>\<open>IOError\<close> is an alias), or a file whose bytes are not
  UTF-8 (\<^verbatim>\<open>UnicodeDecodeError\<close>, a \<^verbatim>\<open>ValueError\<close>: the handler of line 36 does not catch it).
\<close>

datatype fobj = Text string | Unreadable | Undecodable

datatype diag = FailedToOpen string

text \<open>
  The result of a call: the value returned (\<open>Inr\<close>) or the exception that leaves the
  function (\<open>Inl\<close>), the file afterwards, and the diagnostics written to the standard
  error. \<^verbatim>\<open>fileinput\<close> with \<^verbatim>\<open>inplace=True\<close> redirects \<^verbatim>\<open>print\<close> into the file, so the
  file after a pass is what the pass printed; when pass 2 raises, it is what pass 2 had
  printed until then.
\<close>

record hf_result =
  returned :: "exn + int"
  file_after :: fobj
  stderr :: "diag list"

text \<open>The file after pass 1, which pass 2 reads.\<close>

definition pass1_file :: "string \<Rightarrow> string" where
  "pass1_file data = concat (written (pass1 (readlines data)))"

definition highlight_file :: "'lx env \<Rightarrow> string \<Rightarrow> fobj \<Rightarrow> hf_result" where
  "highlight_file E pathname f =
     (case get_lexer_for_filename E (removesuffix ''.html'' pathname) of
        None \<Rightarrow> \<lparr>returned = Inr SUCCESS, file_after = f, stderr = []\<rparr>
      | Some lexer \<Rightarrow>
          (case f of
             Unreadable \<Rightarrow>
               \<lparr>returned = Inr FAILURE, file_after = f, stderr = [FailedToOpen pathname]\<rparr>
           | Undecodable \<Rightarrow>
               \<lparr>returned = Inl UnicodeDecodeError, file_after = f, stderr = []\<rparr>
           | Text data \<Rightarrow>
               (let buf = code (pass1 (readlines data));
                    p2 = pass2 (codelines E lexer buf) (readlines (pass1_file data))
                in \<lparr>returned = (case raised p2 of Some e \<Rightarrow> Inl e | None \<Rightarrow> Inr SUCCESS),
                     file_after = Text (concat (emitted p2)),
                     stderr = []\<rparr>)))"

subsection \<open>\<^verbatim>\<open>traverse_repository\<close>\<close>

text \<open>
  A directory is the list of its entries in the order \<^verbatim>\<open>os.listdir\<close> returns them; an
  entry that is not a directory is a file.
\<close>

datatype node = File fobj | Dir "(string \<times> node) list"

text \<open>\<^verbatim>\<open>os.path.join(a, b)\<close> on POSIX.\<close>

definition path_join :: "string \<Rightarrow> string \<Rightarrow> string" where
  "path_join a b =
     (if prefix ''/'' b then b
      else if a = [] \<or> suffix ''/'' a then a @ b
      else a @ ''/'' @ b)"

text \<open>
  \<^verbatim>\<open>os.path.isdir(p)\<close> for a path \<open>p\<close> directly inside the directory \<open>pathname\<close> being
  listed, whose entries are \<open>ents\<close>: \<open>p\<close> is the directory's path, a slash and one name.
  The empty name, \<^verbatim>\<open>.\<close> and \<^verbatim>\<open>..\<close> name the directory itself or its parent, which are
  directories; any other name is looked up among the entries.
\<close>

definition isdir_in :: "string \<Rightarrow> (string \<times> node) list \<Rightarrow> string \<Rightarrow> bool" where
  "isdir_in pathname ents p =
     (case re_lit (path_join pathname []) Some p of
        None \<Rightarrow> False
      | Some name \<Rightarrow>
          name = [] \<or> name = ''.'' \<or> name = ''..'' \<or>
          (case map_of ents name of Some (Dir sub) \<Rightarrow> True | _ \<Rightarrow> False))"

text \<open>
  The result of a traversal: the value returned or the exception raised, the tree with the
  files as rewritten, the pathnames \<^verbatim>\<open>highlight_file\<close> was called with, in call order,
  and the diagnostics written.
\<close>

record walk_result =
  outcome :: "exn + int"
  tree_after :: "(string \<times> node) list"
  calls :: "string list"
  errs :: "diag list"

fun traverse_repository :: "'lx env \<Rightarrow> string \<Rightarrow> (string \<times> node) list \<Rightarrow> walk_result"
and traverse_loop ::
  "'lx env \<Rightarrow> string \<Rightarrow> (string \<times> node) list \<Rightarrow> int \<Rightarrow> (string \<times> node) list \<Rightarrow> walk_result"
where
  "traverse_repository E pathname ents =
     (if pathname = []
      then \<lparr>outcome = Inl FileNotFoundError, tree_after = ents, calls = [], errs = []\<rparr>
      else traverse_loop E pathname ents SUCCESS ents)"
| "traverse_loop E pathname ents retval [] =
     \<lparr>outcome = Inr retval, tree_after = [], calls = [], errs = []\<rparr>"
| "traverse_loop E pathname ents retval ((i, n) # rest) =
     (let newpath = path_join pathname i
      in case n of
           Dir sub \<Rightarrow>
             (let r = traverse_repository E newpath sub
              in case outcome r of
                   Inl e \<Rightarrow>
                     \<lparr>outcome = Inl e, tree_after = (i, Dir (tree_after r)) # rest,
                      calls = calls r, errs = errs r\<rparr>
                 | Inr rv \<Rightarrow>
                     (let r' = traverse_loop E pathname ents rv rest
                      in \<lparr>outcome = outcome r',
                          tree_after = (i, Dir (tree_after r)) # tree_after r',
                          calls = calls r @ calls r', errs = errs r @ errs r'\<rparr>))
         | File f \<Rightarrow>
             if \<not> isdir_in pathname ents (removesuffix ''.html'' newpath) then
               (let h = highlight_file E newpath f
                in case returned h of
                     Inl e \<Rightarrow>
                       \<lparr>outcome = Inl e, tree_after = (i, File (file_after h)) # rest,
                        calls = [newpath], errs = stderr h\<rparr>
                   | Inr rv \<Rightarrow>
                       (let r' = traverse_loop E pathname ents rv rest
                        in \<lparr>outcome = outcome r',
                            tree_after = (i, File (file_after h)) # tree_after r',
                            calls = newpath # calls r', errs = stderr h @ errs r'\<rparr>))
             else
               (let r' = traverse_loop E pathname ents retval rest
                in r'\<lparr>tree_after := (i, File f) # tree_after r'\<rparr>))"

subsection \<open>Stand-ins for the library, for evaluation at concrete inputs\<close>

text \<open>
  The theorems below hold for every environment. Where a theorem is evaluated at a concrete
  input, the library is replaced by stand-ins. \<open>unescape_basic\<close> is \<^verbatim>\<open>html.unescape\<close>
  on text whose only character references are the five that stagit writes
  (\<^verbatim>\<open>&lt;\<close>, \<^verbatim>\<open>&gt;\<close>, \<^verbatim>\<open>&amp;\<close>, \<^verbatim>\<open>&quot;\<close>, \<^verbatim>\<open>&#39;\<close>): one pass from the left, the replacement
  text not scanned again. The stand-in lexer table knows the names that end in \<^verbatim>\<open>.c\<close>, and
  the stand-in highlighter wraps the text as the HTML formatter does, without marking it up.
\<close>

function unescape_basic :: "string \<Rightarrow> string" where
  "unescape_basic [] = []"
| "unescape_basic (c # cs) =
     (if prefix ''&lt;'' (c # cs) then CHR ''<'' # unescape_basic (drop 4 (c # cs))
      else if prefix ''&gt;'' (c # cs) then CHR ''>'' # unescape_basic (drop 4 (c # cs))
      else if prefix ''&amp;'' (c # cs) then CHR ''&'' # unescape_basic (drop 5 (c # cs))
      else if prefix ''&quot;'' (c # cs) then CHR 0x22 # unescape_basic (drop 6 (c # cs))
      else if prefix ''&#39;'' (c # cs) then CHR 0x27 # unescape_basic (drop 5 (c # cs))
      else c # unescape_basic cs)"
  by pat_completeness auto
termination
  by (relation "measure length") auto

definition stub_env :: "unit env" where
  \<open>stub_env =
     \<lparr>get_lexer_for_filename = (\<lambda>name. if suffix ''.c'' name then Some () else None),
      html_unescape = unescape_basic,
      pygments_highlight =
        (\<lambda>text lexer. ''<div class="highlight"><pre>'' @ text @ ''</pre></div>'' @ [nl])\<rparr>\<close>

subsection \<open>Notions used in the statements\<close>

text \<open>The two marker lines of pass 1, as the loop compares them (line feed included).\<close>

definition opener :: string where
  \<open>opener = ''<div id="content">'' @ [nl]\<close>

definition closer :: string where
  \<open>closer = ''</div>'' @ [nl]\<close>

text \<open>What one iteration of pass 1 prints for a line, given the flag on entry.\<close>

definition printed_for :: "bool \<Rightarrow> string \<Rightarrow> string" where
  "printed_for b line =
     last (written (pass1_step \<lparr>code = [], in_content = b, written = []\<rparr> line))"

fun printed_lines :: "bool \<Rightarrow> string list \<Rightarrow> string list" where
  "printed_lines b [] = []"
| "printed_lines b (l # ls) = printed_for b l # printed_lines (b \<or> l = opener) ls"

text \<open>What a line adds to the code buffer: for an anchor line, group 1 and a line feed.\<close>

definition code_piece :: "string \<Rightarrow> string" where
  "code_piece line = (case match_code line of Some g \<Rightarrow> g @ [nl] | None \<Rightarrow> [])"

text \<open>An anchor line whose code is \<^verbatim>\<open>a &lt; b\<close>, escaped once more.\<close>

definition line_amp :: string where
  \<open>line_amp = ''<a href="#l1" class="line" id="l1">      1</a> a &amp;lt; b'' @ [nl]\<close>

text \<open>The number of lines that the pattern of line 78 matches.\<close>

definition anchor_count :: "string list \<Rightarrow> nat" where
  "anchor_count ls = length (filter (\<lambda>l. match_prefix l \<noteq> None) ls)"

text \<open>What pass 2 prints for the lines \<open>ls\<close> when the cursor starts at \<open>j\<close> and stays in range.\<close>

fun injected :: "string list \<Rightarrow> nat \<Rightarrow> string list \<Rightarrow> string list" where
  "injected cl j [] = []"
| "injected cl j (l # ls) =
     (case match_prefix l of
        Some p \<Rightarrow> (p @ cl ! j @ [nl]) # injected cl (Suc j) ls
      | None \<Rightarrow> l # injected cl j ls)"

text \<open>Two anchor lines, as stagit writes them for a file of two lines.\<close>

definition anchor1 :: string where
  \<open>anchor1 = ''<a href="#l1" class="line" id="l1">      1</a> int x = 1;'' @ [nl]\<close>

definition anchor2 :: string where
  \<open>anchor2 = ''<a href="#l2" class="line" id="l2">      2</a> int x = 2;'' @ [nl]\<close>

text \<open>The stand-in environment with a highlighter that returns the empty string.\<close>

definition silent_env :: "unit env" where
  "silent_env = stub_env\<lparr>pygments_highlight := (\<lambda>text lexer. [])\<rparr>"





text \<open>
  The minimal page: a stylesheet line, the content opener, the raw-link line, two anchor
  lines and the content close.
\<close>

definition stylesheet_line :: string where
  \<open>stylesheet_line = ''<link rel="stylesheet" type="text/css" href="style.css"/>'' @ [nl]\<close>

definition rawlink_line :: string where
  \<open>rawlink_line = ''<p> x.c (22B) <a href="raw/x.c">raw</a></p><hr/><pre id=blob">'' @ [nl]\<close>

definition fixture :: string where
  "fixture = concat [stylesheet_line, opener, rawlink_line, anchor1, anchor2, closer]"

text \<open>
  The shape of the lines that \<open>readlines\<close> delivers: a line is not empty and has no line
  feed before its last character, and every line but the last ends with a line feed.
\<close>

definition line_ok :: "string \<Rightarrow> bool" where
  "line_ok l = (l \<noteq> [] \<and> nl \<notin> set (butlast l))"

fun lines_ok :: "string list \<Rightarrow> bool" where
  "lines_ok [] = True"
| "lines_ok (l # ls) = (line_ok l \<and> (ls \<noteq> [] \<longrightarrow> last l = nl) \<and> lines_ok ls)"

text \<open>
  The extra \<^verbatim>\<open></div>\<close> that pass 1 prints after a content close has no line feed, so the
  next line printed continues it. \<open>pend g\<close> is that pending text, if any, and
  \<open>glue_free b ls\<close> says that, with the flag \<open>b\<close> on entry, no anchor line of \<open>ls\<close>
  comes directly after a doubled \<^verbatim>\<open></div>\<close> line.
\<close>

definition pend :: "bool \<Rightarrow> string" where
  "pend g = (if g then ''</div>'' else [])"

fun glue_free :: "bool \<Rightarrow> string list \<Rightarrow> bool" where
  "glue_free b [] = True"
| "glue_free b [l] = True"
| "glue_free b (l # l' # ls) =
     (\<not> (b \<and> l = closer \<and> match_prefix l' \<noteq> None) \<and> glue_free (b \<or> l = opener) (l' # ls))"

text \<open>
  A page whose anchor line comes directly after the content close, and the minimal page
  followed by a \<^verbatim>\<open></body>\<close> line.
\<close>

definition glued_page :: string where
  "glued_page = concat [opener, closer, anchor1]"

definition closed_page :: string where
  "closed_page = fixture @ ''</body>'' @ [nl]"

text \<open>
  The stand-in environment with a highlighter that marks the text up: it wraps every line
  of the text in a \<^verbatim>\<open>span\<close> element, inside the wrapper of the HTML formatter.
\<close>

definition marking_env :: "unit env" where
  \<open>marking_env =
     stub_env\<lparr>pygments_highlight :=
       (\<lambda>text lexer.
          ''<div class="highlight"><pre>'' @
          concat (map (\<lambda>l. ''<span class="n">'' @ l @ ''</span>'' @ [nl]) (butlast (split_nl text))) @
          ''</pre></div>'' @ [nl])\<rparr>\<close>

section \<open>Properties\<close>

subsection \<open>Files without a lexer\<close>

lemma stub_lexer_readme:
  "get_lexer_for_filename stub_env (removesuffix ''.html'' ''site/file/README.html'') = None"
  by (simp add: stub_env_def removesuffix_def suffix_def)

text \<open>
  C8. When the lookup name (the pathname without a trailing \<^verbatim>\<open>.html\<close>) has no lexer,
  \<^verbatim>\<open>highlight_file\<close> returns \<^verbatim>\<open>SUCCESS\<close> at once: the file is what it was, whatever its
  state (it is not even opened), and nothing is written to the diagnostic output.
\<close>

theorem unrecognised_file_untouched:
  "get_lexer_for_filename E (removesuffix ''.html'' pathname) = None \<Longrightarrow>
   highlight_file E pathname f = \<lparr>returned = Inr SUCCESS, file_after = f, stderr = []\<rparr>"
  by (simp add: highlight_file_def)

theorem unrecognised_file_untouched_witness:
  \<open>highlight_file stub_env ''site/file/README.html'' (Text ''<div id="content">'') =
     \<lparr>returned = Inr SUCCESS, file_after = Text ''<div id="content">'', stderr = []\<rparr>\<close>
  using unrecognised_file_untouched [OF stub_lexer_readme] by simp

subsection \<open>The regular expressions and pass 1\<close>

lemma re_lit_prefix: "re_lit p k s \<noteq> None \<Longrightarrow> prefix p s"
  by (induction p k s rule: re_lit.induct) (auto split: if_splits)

lemma re_lit_None_cong:
  "(\<And>r. (k r = None) = (k' r = None)) \<Longrightarrow> (re_lit p k s = None) = (re_lit p k' s = None)"
  by (induction p k s rule: re_lit.induct) auto

lemma re_star_None_cong:
  "(\<And>r. (k r = None) = (k' r = None)) \<Longrightarrow> (re_star P k s = None) = (re_star P k' s = None)"
  by (induction s) (auto split: option.splits)

lemma re_plus_None_cong:
  "(\<And>r. (k r = None) = (k' r = None)) \<Longrightarrow> (re_plus P k s = None) = (re_plus P k' s = None)"
proof -
  assume h: "\<And>r. (k r = None) = (k' r = None)"
  show ?thesis
  proof (cases s)
    case Nil
    then show ?thesis by (simp add: re_plus_def)
  next
    case (Cons c cs)
    show ?thesis
      using re_star_None_cong [of k k' P cs, OF h]
      by (simp add: re_plus_def Cons)
  qed
qed

lemma re_anchor_None_cong:
  assumes "\<And>r. (k r = None) = (k' r = None)"
  shows "(re_anchor k s = None) = (re_anchor k' s = None)"
  unfolding re_anchor_def
  by (intro re_lit_None_cong re_plus_None_cong re_star_None_cong assms)

lemma match_code_iff_prefix: "(match_code l = None) = (match_prefix l = None)"
  unfolding match_code_def match_prefix_def
  by (rule re_anchor_None_cong) simp

lemma match_prefix_starts: "match_prefix l \<noteq> None \<Longrightarrow> \<exists>t. l = CHR ''<'' # CHR ''a'' # t"
proof -
  assume "match_prefix l \<noteq> None"
  then have "prefix ''<a href=\"#l'' l"
    unfolding match_prefix_def re_anchor_def by (rule re_lit_prefix)
  then show ?thesis by (auto simp: prefix_def)
qed

lemma opener_not_stylesheet: "\<not> match_stylesheet opener"
  by (simp add: match_stylesheet_def opener_def)

lemma pass1_step_written:
  "written (pass1_step st line) = written st @ [printed_for (in_content st) line]"
  by (simp add: pass1_step_def printed_for_def py_print_def Let_def split: option.splits)

lemma pass1_step_code: "code (pass1_step st line) = code st @ code_piece line"
  by (simp add: pass1_step_def code_piece_def py_print_def Let_def split: option.splits)

lemma pass1_step_in_content:
  "in_content (pass1_step st line) = (in_content st \<or> line = opener)"
  using opener_not_stylesheet
  by (auto simp: pass1_step_def py_print_def Let_def opener_def split: option.splits)

lemma foldl_pass1_written:
  "written (foldl pass1_step st ls) = written st @ printed_lines (in_content st) ls"
  by (induction ls arbitrary: st) (simp_all add: pass1_step_written pass1_step_in_content)

lemma foldl_pass1_code:
  "code (foldl pass1_step st ls) = code st @ concat (map code_piece ls)"
  by (induction ls arbitrary: st) (simp_all add: pass1_step_code)

lemma foldl_pass1_in_content:
  "in_content (foldl pass1_step st ls) = (in_content st \<or> opener \<in> set ls)"
  by (induction ls arbitrary: st) (auto simp: pass1_step_in_content)

lemma length_printed_lines: "length (printed_lines b ls) = length ls"
  by (induction ls arbitrary: b) simp_all

lemma printed_lines_nth:
  "i < length ls \<Longrightarrow>
   printed_lines b ls ! i = printed_for (b \<or> opener \<in> set (take i ls)) (ls ! i)"
proof (induction ls arbitrary: b i)
  case Nil
  then show ?case by simp
next
  case (Cons l ls)
  show ?case
  proof (cases i)
    case 0
    then show ?thesis by simp
  next
    case (Suc k)
    with Cons.prems have "k < length ls" by simp
    have "(opener = l) = (l = opener)" by auto
    with Cons.IH [OF \<open>k < length ls\<close>, of "b \<or> l = opener"] Suc show ?thesis by simp
  qed
qed

lemma pass1_written: "written (pass1 ls) = printed_lines False ls"
  by (simp add: pass1_def foldl_pass1_written)

lemma pass1_code: "code (pass1 ls) = concat (map code_piece ls)"
  by (simp add: pass1_def foldl_pass1_code)

lemma pass1_in_content: "in_content (pass1 ls) = (opener \<in> set ls)"
  by (simp add: pass1_def foldl_pass1_in_content)

lemma printed_for_closer:
  "printed_for b closer = (if b then closer @ ''</div>'' else closer)"
  by (simp add: printed_for_def pass1_step_def closer_def py_print_def match_code_def
      re_anchor_def match_stylesheet_def Let_def)

lemma printed_for_opener: "printed_for b opener = opener"
  by (simp add: printed_for_def pass1_step_def opener_def py_print_def match_code_def
      re_anchor_def match_stylesheet_def Let_def)

lemma printed_for_outside:
  "\<not> match_stylesheet l \<Longrightarrow> printed_for False l = l"
  by (simp add: printed_for_def pass1_step_def py_print_def Let_def split: option.splits)

lemma anchor_not_other:
  assumes "match_prefix l \<noteq> None"
  shows "\<not> match_stylesheet l" and "l \<noteq> opener" and "l \<noteq> closer" and "\<not> match_rawlink l"
proof -
  from match_prefix_starts [OF assms] obtain t where l: "l = CHR ''<'' # CHR ''a'' # t" by blast
  show "\<not> match_stylesheet l" by (simp add: l match_stylesheet_def)
  show "l \<noteq> opener" by (simp add: l opener_def)
  show "l \<noteq> closer" by (simp add: l closer_def)
  show "\<not> match_rawlink l" by (simp add: l match_rawlink_def)
qed

lemma printed_for_anchor: "match_prefix l \<noteq> None \<Longrightarrow> printed_for b l = l"
  using anchor_not_other [of l]
  by (simp add: printed_for_def pass1_step_def py_print_def Let_def opener_def closer_def
      split: option.splits)

lemmas eval_defs = pass1_def pass1_step_def py_print_def match_code_def match_prefix_def re_anchor_def
  re_plus_def re_dot_def re_eol_def digit_def space_def dot_def nl_def match_stylesheet_def match_rawlink_def
  opener_def closer_def code_piece_def Let_def

lemma highlight_file_text:
  "get_lexer_for_filename E (removesuffix ''.html'' pathname) = Some lexer \<Longrightarrow>
   highlight_file E pathname (Text data) =
     (let p2 = pass2 (codelines E lexer (code (pass1 (readlines data)))) (readlines (pass1_file data))
      in \<lparr>returned = (case raised p2 of Some e \<Rightarrow> Inl e | None \<Rightarrow> Inr SUCCESS),
          file_after = Text (concat (emitted p2)), stderr = []\<rparr>)"
  by (simp add: highlight_file_def Let_def)

subsection \<open>The code buffer\<close>

text \<open>
  C2 (as amended). In pass 1 an anchor line adds group 1 of its match and a line feed to
  the code buffer, as the text stands in the file: nothing is unescaped line by line. The
  anchor line itself is printed back unchanged. The buffer is HTML-unescaped exactly once,
  when it is handed to the highlighter.
\<close>

theorem code_buffer_raw_unescaped_once:
  \<open>code (pass1 ls) = concat (map code_piece ls) \<and>
   length (written (pass1 ls)) = length ls \<and>
   (\<forall>i<length ls. match_code (ls ! i) \<noteq> None \<longrightarrow> written (pass1 ls) ! i = ls ! i) \<and>
   (get_lexer_for_filename E (removesuffix ''.html'' pathname) = Some lexer \<longrightarrow>
      file_after (highlight_file E pathname (Text data)) =
        Text (concat (emitted (pass2
          (split_nl (removeprefix ''<div class="highlight"><pre>''
             (pygments_highlight E (html_unescape E (concat (map code_piece (readlines data)))) lexer)))
          (readlines (pass1_file data))))))\<close>
proof (intro conjI allI impI)
  show "code (pass1 ls) = concat (map code_piece ls)" by (rule pass1_code)
  show "length (written (pass1 ls)) = length ls" by (simp add: pass1_written length_printed_lines)
next
  fix i assume "i < length ls" and "match_code (ls ! i) \<noteq> None"
  then show "written (pass1 ls) ! i = ls ! i"
    by (simp add: pass1_written printed_lines_nth printed_for_anchor match_code_iff_prefix)
next
  assume "get_lexer_for_filename E (removesuffix ''.html'' pathname) = Some lexer"
  then show \<open>file_after (highlight_file E pathname (Text data)) =
        Text (concat (emitted (pass2
          (split_nl (removeprefix ''<div class="highlight"><pre>''
             (pygments_highlight E (html_unescape E (concat (map code_piece (readlines data)))) lexer)))
          (readlines (pass1_file data)))))\<close>
    by (simp add: highlight_file_text codelines_def pass1_code Let_def)
qed

lemma match_code_line_amp: "match_code line_amp = Some ''a &amp;lt; b''"
  by (simp add: line_amp_def eval_defs)

text \<open>
  The claim as stated, with a per-line unescape and a second one on the buffer, fails on a
  line whose code is escaped twice: the buffer holds the text of the file, and the
  highlighter receives it unescaped once, not twice.
\<close>

theorem code_buffer_counterexample:
  \<open>match_code line_amp = Some ''a &amp;lt; b'' \<and>
   code (pass1 [line_amp]) = ''a &amp;lt; b'' @ [nl] \<and>
   code (pass1 [line_amp]) \<noteq> unescape_basic ''a &amp;lt; b'' @ [nl] \<and>
   unescape_basic (code (pass1 [line_amp])) = ''a &lt; b'' @ [nl] \<and>
   unescape_basic (unescape_basic ''a &amp;lt; b'' @ [nl]) = ''a < b'' @ [nl]\<close>
  by (simp add: line_amp_def eval_defs)

lemmas eval_defs2 = pass2_def codelines_def removeprefix_def removesuffix_def stub_env_def pass1_file_def
  highlight_file_def suffix_def

theorem code_buffer_raw_unescaped_once_witness:
  \<open>code (pass1 [line_amp]) = ''a &amp;lt; b'' @ [nl] \<and>
   written (pass1 [line_amp]) ! 0 = line_amp \<and>
   file_after (highlight_file stub_env ''x.c.html'' (Text line_amp)) =
     Text (''<a href="#l1" class="line" id="l1">      1</a> a &lt; b'' @ [nl])\<close>
  using code_buffer_raw_unescaped_once [of "[line_amp]" stub_env "''x.c.html''" "()" line_amp]
  by (simp add: line_amp_def eval_defs eval_defs2)

subsection \<open>The content flag\<close>

text \<open>
  C3 (as amended). In pass 1 the inside-content treatment starts at the line that is exactly
  the content-container opener and lasts to the end of the file: the flag is set there and
  never cleared. The opener is printed unchanged; a line that is exactly \<^verbatim>\<open></div>\<close> is
  printed followed by one extra \<^verbatim>\<open></div>\<close> whenever an opener came before it, the matching
  close and every later \<^verbatim>\<open></div>\<close> line alike, and unchanged otherwise. Before the opener,
  every line but a stylesheet line is printed unchanged.
\<close>

theorem closing_div_doubled_after_opener:
  \<open>length (written (pass1 ls)) = length ls \<and>
   in_content (pass1 ls) = (opener \<in> set ls) \<and>
   (\<forall>i<length ls. ls ! i = opener \<longrightarrow> written (pass1 ls) ! i = opener) \<and>
   (\<forall>i<length ls. ls ! i = closer \<longrightarrow>
      written (pass1 ls) ! i = (if opener \<in> set (take i ls) then closer @ ''</div>'' else closer)) \<and>
   (\<forall>i<length ls. opener \<notin> set (take i ls) \<and> \<not> match_stylesheet (ls ! i) \<longrightarrow>
      written (pass1 ls) ! i = ls ! i)\<close>
  by (simp add: pass1_written length_printed_lines pass1_in_content printed_lines_nth
      printed_for_opener printed_for_closer printed_for_outside)

text \<open>
  The claim as stated ends the treatment at the matching close. On a page with a second
  \<^verbatim>\<open></div>\<close> line after it, that line is doubled too.
\<close>

theorem closing_div_counterexample:
  \<open>written (pass1 [opener, closer, ''</body>'' @ [nl], closer]) =
     [opener, closer @ ''</div>'', ''</body>'' @ [nl], closer @ ''</div>''] \<and>
   written (pass1 [opener, closer, ''</body>'' @ [nl], closer]) ! 3 \<noteq> closer\<close>
  by (simp add: eval_defs)

theorem closing_div_doubled_after_opener_witness:
  \<open>written (pass1 [closer, opener, closer, closer]) ! 0 = closer \<and>
   written (pass1 [closer, opener, closer, closer]) ! 1 = opener \<and>
   written (pass1 [closer, opener, closer, closer]) ! 2 = closer @ ''</div>'' \<and>
   written (pass1 [closer, opener, closer, closer]) ! 3 = closer @ ''</div>'' \<and>
   in_content (pass1 [closer, opener, closer, closer])\<close>
proof -
  let ?ls = "[closer, opener, closer, closer]"
  note t = closing_div_doubled_after_opener [of ?ls]
  have ne: "opener \<noteq> closer" by (simp add: opener_def closer_def)
  from t have o: "\<forall>i<length ?ls. ?ls ! i = opener \<longrightarrow> written (pass1 ?ls) ! i = opener"
    by blast
  from t have c: "\<forall>i<length ?ls. ?ls ! i = closer \<longrightarrow>
      written (pass1 ?ls) ! i = (if opener \<in> set (take i ?ls) then closer @ ''</div>'' else closer)"
    by blast
  from t have f: "in_content (pass1 ?ls) = (opener \<in> set ?ls)" by blast
  from c [rule_format, of 0] have "written (pass1 ?ls) ! 0 = closer" by simp
  moreover from o [rule_format, of 1] have "written (pass1 ?ls) ! 1 = opener" by simp
  moreover from c [rule_format, of 2] ne have "written (pass1 ?ls) ! 2 = closer @ ''</div>''"
    by simp
  moreover from c [rule_format, of 3] ne have "written (pass1 ?ls) ! 3 = closer @ ''</div>''"
    by simp
  moreover from f have "in_content (pass1 ?ls)" by simp
  ultimately show ?thesis by blast
qed

subsection \<open>Pass 2\<close>

lemma anchor_count_Cons:
  "anchor_count (l # ls) = (if match_prefix l \<noteq> None then Suc (anchor_count ls) else anchor_count ls)"
  by (simp add: anchor_count_def)

lemma anchor_count_Nil: "anchor_count [] = 0"
  by (simp add: anchor_count_def)

lemma anchor_count_append: "anchor_count (xs @ ys) = anchor_count xs + anchor_count ys"
  by (simp add: anchor_count_def)

lemma length_injected: "length (injected cl j ls) = length ls"
  by (induction ls arbitrary: j) (simp_all split: option.splits)

lemma injected_nth:
  "i < length ls \<Longrightarrow>
   injected cl j ls ! i =
     (case match_prefix (ls ! i) of
        Some p \<Rightarrow> p @ cl ! (j + anchor_count (take i ls)) @ [nl]
      | None \<Rightarrow> ls ! i)"
proof (induction ls arbitrary: i j)
  case Nil
  then show ?case by simp
next
  case (Cons l ls)
  show ?case
  proof (cases i)
    case 0
    then show ?thesis by (simp add: anchor_count_Nil split: option.splits)
  next
    case (Suc k)
    with Cons.prems have k: "k < length ls" by simp
    show ?thesis
      using Cons.IH [OF k, of "Suc j"] Cons.IH [OF k, of j]
      by (simp add: Suc anchor_count_Cons split: option.splits)
  qed
qed

lemma pass2_loop_in_range:
  "cursor st + anchor_count ls \<le> length cl \<Longrightarrow>
   pass2_loop cl st ls =
     st\<lparr>cursor := cursor st + anchor_count ls, emitted := emitted st @ injected cl (cursor st) ls\<rparr>"
proof (induction ls arbitrary: st)
  case Nil
  then show ?case by (simp add: anchor_count_Nil)
next
  case (Cons l ls)
  show ?case
  proof (cases "match_prefix l")
    case None
    with Cons.prems have "cursor (st\<lparr>emitted := emitted st @ [l]\<rparr>) + anchor_count ls \<le> length cl"
      by (simp add: anchor_count_Cons)
    from Cons.IH [OF this] None show ?thesis by (simp add: anchor_count_Cons)
  next
    case (Some p)
    let ?st = "st\<lparr>cursor := cursor st + 1, emitted := emitted st @ [p @ cl ! cursor st @ [nl]]\<rparr>"
    from Some Cons.prems have lt: "cursor st < length cl" and
      "cursor ?st + anchor_count ls \<le> length cl"
      by (simp_all add: anchor_count_Cons)
    from Cons.IH [OF this(2)] Some lt show ?thesis by (simp add: anchor_count_Cons)
  qed
qed

lemma pass2_loop_cursor:
  "cursor st \<le> length cl \<Longrightarrow>
   cursor (pass2_loop cl st ls) = min (cursor st + anchor_count ls) (length cl)"
proof (induction ls arbitrary: st)
  case Nil
  then show ?case by (simp add: anchor_count_Nil)
next
  case (Cons l ls)
  show ?case
  proof (cases "match_prefix l")
    case None
    with Cons.IH [of "st\<lparr>emitted := emitted st @ [l]\<rparr>"] Cons.prems show ?thesis
      by (simp add: anchor_count_Cons)
  next
    case (Some p)
    let ?st = "st\<lparr>cursor := cursor st + 1, emitted := emitted st @ [p @ cl ! cursor st @ [nl]]\<rparr>"
    show ?thesis
    proof (cases "cursor st < length cl")
      case True
      then have "cursor ?st \<le> length cl" by simp
      from Cons.IH [OF this] Some True show ?thesis by (simp add: anchor_count_Cons)
    next
      case False
      with Some Cons.prems show ?thesis by (simp add: anchor_count_Cons)
    qed
  qed
qed

lemma pass2_loop_raises:
  "length cl < cursor st + anchor_count ls \<Longrightarrow> cursor st \<le> length cl \<Longrightarrow>
   raised (pass2_loop cl st ls) = Some IndexError"
proof (induction ls arbitrary: st)
  case Nil
  then show ?case by (simp add: anchor_count_Nil)
next
  case (Cons l ls)
  show ?case
  proof (cases "match_prefix l")
    case None
    with Cons.IH [of "st\<lparr>emitted := emitted st @ [l]\<rparr>"] Cons.prems show ?thesis
      by (simp add: anchor_count_Cons)
  next
    case (Some p)
    let ?st = "st\<lparr>cursor := cursor st + 1, emitted := emitted st @ [p @ cl ! cursor st @ [nl]]\<rparr>"
    show ?thesis
    proof (cases "cursor st < length cl")
      case True
      with Some Cons.prems have "length cl < cursor ?st + anchor_count ls" "cursor ?st \<le> length cl"
        by (simp_all add: anchor_count_Cons)
      from Cons.IH [OF this] Some True show ?thesis by simp
    next
      case False
      with Some show ?thesis by simp
    qed
  qed
qed

lemma pass2_loop_emitted_grows:
  "\<exists>zs. emitted (pass2_loop cl st ls) = emitted st @ zs"
proof (induction ls arbitrary: st)
  case Nil
  then show ?case by simp
next
  case (Cons l ls)
  show ?case
  proof (cases "match_prefix l")
    case None
    with Cons.IH [of "st\<lparr>emitted := emitted st @ [l]\<rparr>"] show ?thesis by auto
  next
    case (Some p)
    let ?st = "st\<lparr>cursor := cursor st + 1, emitted := emitted st @ [p @ cl ! cursor st @ [nl]]\<rparr>"
    from Cons.IH [of ?st] Some show ?thesis by auto
  qed
qed

lemma pass2_loop_append:
  "raised (pass2_loop cl st xs) = None \<Longrightarrow>
   pass2_loop cl st (xs @ ys) = pass2_loop cl (pass2_loop cl st xs) ys"
proof (induction xs arbitrary: st)
  case Nil
  then show ?case by simp
next
  case (Cons l ls)
  show ?case
  proof (cases "match_prefix l")
    case None
    with Cons show ?thesis by simp
  next
    case (Some p)
    with Cons show ?thesis by (simp split: if_splits)
  qed
qed


lemma re_lit_result: "re_lit p k s = Some y \<Longrightarrow> \<exists>r. k r = Some y"
  by (induction p k s rule: re_lit.induct) (auto split: if_splits)

lemma re_star_result: "re_star P k s = Some y \<Longrightarrow> \<exists>r. k r = Some y"
  by (induction s) (auto split: if_splits option.splits)

lemma re_plus_result: "re_plus P k s = Some y \<Longrightarrow> \<exists>r. k r = Some y"
  by (auto simp: re_plus_def split: list.splits if_splits dest: re_star_result)

lemma re_anchor_result: "re_anchor k s = Some y \<Longrightarrow> \<exists>r. k r = Some y"
  unfolding re_anchor_def
  by (blast dest: re_lit_result re_plus_result re_star_result)

lemma match_prefix_is_prefix: "match_prefix l = Some p \<Longrightarrow> prefix p l"
proof -
  assume "match_prefix l = Some p"
  then have "re_anchor (\<lambda>r. Some (take (length l - length r) l)) l = Some p"
    by (simp add: match_prefix_def)
  from re_anchor_result [OF this]
  obtain r :: string where "Some (take (length l - length r) l) = Some p" by blast
  then show ?thesis by (auto simp: take_is_prefix)
qed

text \<open>
  C5 (as amended). In pass 2 the cursor advances by one for each line that matches the anchor-prefix
  pattern, as long as the highlighted lines last. For every line that the loop reaches
  (the highlighted lines suffice for the matching lines up to and including it), a
  matching line is printed as its anchor prefix, the next unconsumed highlighted line
  (the one at the number of matching lines before it) and a line feed, and a line that
  does not match is printed unchanged. The anchor prefix is a prefix of the line.
\<close>

theorem pass2_injects_in_order:
  "cursor (pass2 cl ls) = min (anchor_count ls) (length cl) \<and>
   (\<forall>i<length ls. anchor_count (take (Suc i) ls) \<le> length cl \<longrightarrow>
      i < length (emitted (pass2 cl ls)) \<and>
      emitted (pass2 cl ls) ! i =
        (case match_prefix (ls ! i) of
           Some p \<Rightarrow> p @ cl ! anchor_count (take i ls) @ [nl]
         | None \<Rightarrow> ls ! i)) \<and>
   (\<forall>l p. match_prefix l = Some p \<longrightarrow> prefix p l)"
proof (intro conjI allI impI)
  show "cursor (pass2 cl ls) = min (anchor_count ls) (length cl)"
    by (simp add: pass2_def pass2_loop_cursor)
next
  fix l p assume "match_prefix l = Some p"
  then show "prefix p l" by (rule match_prefix_is_prefix)
next
  fix i assume i: "i < length ls" and le: "anchor_count (take (Suc i) ls) \<le> length cl"
  let ?init = "\<lparr>raised = None, cursor = 0, emitted = []\<rparr>"
  let ?xs = "take (Suc i) ls"
  let ?r = "pass2_loop cl ?init ?xs"
  from le have "cursor ?init + anchor_count ?xs \<le> length cl" by simp
  from pass2_loop_in_range [OF this]
  have r: "?r = ?init\<lparr>cursor := anchor_count ?xs, emitted := injected cl 0 ?xs\<rparr>" by simp
  then have "raised ?r = None" by simp
  from pass2_loop_append [OF this, of "drop (Suc i) ls"]
  have "pass2 cl ls = pass2_loop cl ?r (drop (Suc i) ls)" by (simp add: pass2_def)
  with pass2_loop_emitted_grows [of cl ?r "drop (Suc i) ls"] r
  obtain zs where e: "emitted (pass2 cl ls) = injected cl 0 ?xs @ zs" by auto
  from i have len: "i < length (injected cl 0 ?xs)" by (simp add: length_injected)
  with e show "i < length (emitted (pass2 cl ls))" by simp
  from i have "i < length ?xs" by simp
  from injected_nth [OF this, of cl 0] i
  have "injected cl 0 ?xs ! i =
    (case match_prefix (ls ! i) of Some p \<Rightarrow> p @ cl ! anchor_count (take i ls) @ [nl] | None \<Rightarrow> ls ! i)"
    by (simp add: min_def cong: option.case_cong)
  with e len show "emitted (pass2 cl ls) ! i =
    (case match_prefix (ls ! i) of Some p \<Rightarrow> p @ cl ! anchor_count (take i ls) @ [nl] | None \<Rightarrow> ls ! i)"
    by (simp add: nth_append)
qed

text \<open>
  C7. The index into the highlighted lines is not guarded: when the highlighter's output
  has fewer lines than the file after pass 1 has anchor lines, \<^verbatim>\<open>codelines[j]\<close> is out of
  range in pass 2 and \<^verbatim>\<open>highlight_file\<close> ends with an uncaught \<^verbatim>\<open>IndexError\<close>.
\<close>

theorem pass2_index_unguarded:
  "get_lexer_for_filename E (removesuffix ''.html'' pathname) = Some lexer \<Longrightarrow>
   length (codelines E lexer (code (pass1 (readlines data)))) <
     anchor_count (readlines (pass1_file data)) \<Longrightarrow>
   raised (pass2 (codelines E lexer (code (pass1 (readlines data)))) (readlines (pass1_file data))) =
     Some IndexError \<and>
   returned (highlight_file E pathname (Text data)) = Inl IndexError"
proof -
  assume lx: "get_lexer_for_filename E (removesuffix ''.html'' pathname) = Some lexer"
    and lt: "length (codelines E lexer (code (pass1 (readlines data)))) <
     anchor_count (readlines (pass1_file data))"
  let ?cl = "codelines E lexer (code (pass1 (readlines data)))"
  let ?init = "\<lparr>raised = None, cursor = 0, emitted = []\<rparr>"
  from lt have "length ?cl < cursor ?init + anchor_count (readlines (pass1_file data))" by simp
  from pass2_loop_raises [OF this]
  have r: "raised (pass2 ?cl (readlines (pass1_file data))) = Some IndexError"
    by (simp add: pass2_def)
  with lx show ?thesis by (simp add: highlight_file_text Let_def)
qed


lemma match_prefix_anchor1:
  \<open>match_prefix anchor1 = Some ''<a href="#l1" class="line" id="l1">      1</a> ''\<close>
  by (simp add: anchor1_def eval_defs)

lemma match_prefix_anchor2:
  \<open>match_prefix anchor2 = Some ''<a href="#l2" class="line" id="l2">      2</a> ''\<close>
  by (simp add: anchor2_def eval_defs)

lemma match_prefix_pre_close: \<open>match_prefix ''</pre>\<newline>'' = None\<close>
  by (simp add: eval_defs)

theorem pass2_injects_in_order_witness:
  \<open>cursor (pass2 [''A'', ''B''] [anchor1, ''</pre>\<newline>'', anchor2]) = 2 \<and>
   emitted (pass2 [''A'', ''B''] [anchor1, ''</pre>\<newline>'', anchor2]) ! 0 =
     ''<a href="#l1" class="line" id="l1">      1</a> A\<newline>'' \<and>
   emitted (pass2 [''A'', ''B''] [anchor1, ''</pre>\<newline>'', anchor2]) ! 1 = ''</pre>\<newline>'' \<and>
   emitted (pass2 [''A'', ''B''] [anchor1, ''</pre>\<newline>'', anchor2]) ! 2 =
     ''<a href="#l2" class="line" id="l2">      2</a> B\<newline>'' \<and>
   prefix ''<a href="#l1" class="line" id="l1">      1</a> '' anchor1\<close>
proof -
  let ?cl = "[''A'', ''B'']"
  let ?ls = \<open>[anchor1, ''</pre>\<newline>'', anchor2]\<close>
  note m = match_prefix_anchor1 match_prefix_anchor2 match_prefix_pre_close
  note t = pass2_injects_in_order [of ?cl ?ls]
  from t have c: "cursor (pass2 ?cl ?ls) = min (anchor_count ?ls) (length ?cl)" by blast
  from t have e: "\<forall>i<length ?ls. anchor_count (take (Suc i) ?ls) \<le> length ?cl \<longrightarrow>
      i < length (emitted (pass2 ?cl ?ls)) \<and>
      emitted (pass2 ?cl ?ls) ! i =
        (case match_prefix (?ls ! i) of
           Some p \<Rightarrow> p @ ?cl ! anchor_count (take i ?ls) @ [nl]
         | None \<Rightarrow> ?ls ! i)" by blast
  from t have p: "\<forall>l p. match_prefix l = Some p \<longrightarrow> prefix p l" by blast
  from c have "cursor (pass2 ?cl ?ls) = 2" by (simp add: anchor_count_def m)
  moreover from e [rule_format, of 0] have \<open>emitted (pass2 ?cl ?ls) ! 0 =
     ''<a href="#l1" class="line" id="l1">      1</a> A\<newline>''\<close>
    by (simp add: anchor_count_def m nl_def)
  moreover from e [rule_format, of 1] have \<open>emitted (pass2 ?cl ?ls) ! 1 = ''</pre>\<newline>''\<close>
    by (simp add: anchor_count_def m nl_def)
  moreover from e [rule_format, of 2] have \<open>emitted (pass2 ?cl ?ls) ! 2 =
     ''<a href="#l2" class="line" id="l2">      2</a> B\<newline>''\<close>
    by (simp add: anchor_count_def m nl_def)
  moreover from p [rule_format, OF match_prefix_anchor1]
  have \<open>prefix ''<a href="#l1" class="line" id="l1">      1</a> '' anchor1\<close> .
  ultimately show ?thesis by blast
qed

text \<open>
  The claim as stated has no condition on the highlighted lines. When they run out, a
  line that matches gets no output line, and the lines after it, matching or not, are
  never printed: pass 2 ends with an \<^verbatim>\<open>IndexError\<close> at the second anchor line, with one
  line printed.
\<close>

theorem pass2_short_counterexample:
  \<open>raised (pass2 [''A''] [anchor1, anchor2, ''</pre>\<newline>'']) = Some IndexError \<and>
   cursor (pass2 [''A''] [anchor1, anchor2, ''</pre>\<newline>'']) = 1 \<and>
   emitted (pass2 [''A''] [anchor1, anchor2, ''</pre>\<newline>'']) =
     [''<a href="#l1" class="line" id="l1">      1</a> A\<newline>'']\<close>
  by (simp add: pass2_def match_prefix_anchor1 match_prefix_anchor2 match_prefix_pre_close nl_def)

lemma silent_lexer:
  "get_lexer_for_filename silent_env (removesuffix ''.html'' ''x.c.html'') = Some ()"
  by (simp add: silent_env_def stub_env_def removesuffix_def suffix_def)

lemma silent_codelines: "codelines silent_env () buf = [[]]"
  by (simp add: silent_env_def stub_env_def codelines_def removeprefix_def)

lemma two_anchors_pass1_file: "readlines (pass1_file (anchor1 @ anchor2)) = [anchor1, anchor2]"
  by (simp add: pass1_file_def anchor1_def anchor2_def eval_defs)

theorem pass2_index_unguarded_witness:
  "length (codelines silent_env () (code (pass1 (readlines (anchor1 @ anchor2))))) = 1 \<and>
   anchor_count (readlines (pass1_file (anchor1 @ anchor2))) = 2 \<and>
   returned (highlight_file silent_env ''x.c.html'' (Text (anchor1 @ anchor2))) = Inl IndexError"
proof -
  have l: "length (codelines silent_env () (code (pass1 (readlines (anchor1 @ anchor2))))) = 1"
    by (simp add: silent_codelines)
  have a: "anchor_count (readlines (pass1_file (anchor1 @ anchor2))) = 2"
    by (simp add: two_anchors_pass1_file anchor_count_def match_prefix_anchor1 match_prefix_anchor2)
  from l a have "length (codelines silent_env () (code (pass1 (readlines (anchor1 @ anchor2))))) <
     anchor_count (readlines (pass1_file (anchor1 @ anchor2)))" by simp
  from pass2_index_unguarded [OF silent_lexer this] l a show ?thesis by blast
qed

subsection \<open>The walker\<close>

lemmas path_defs = path_join_def isdir_in_def removesuffix_def suffix_to_prefix stub_env_def

lemma highlight_file_unreadable:
  "get_lexer_for_filename E (removesuffix ''.html'' pathname) = Some lexer \<Longrightarrow>
   highlight_file E pathname Unreadable =
     \<lparr>returned = Inr FAILURE, file_after = Unreadable, stderr = [FailedToOpen pathname]\<rparr>"
  by (simp add: highlight_file_def)



lemma hf_good: "highlight_file stub_env ''site/b.c.html'' (Text anchor1) =
  \<lparr>returned = Inr SUCCESS,
   file_after = Text ''<a href=\"#l1\" class=\"line\" id=\"l1\">      1</a> int x = 1;\<newline>'',
   stderr = []\<rparr>"
  by (simp add: anchor1_def eval_defs eval_defs2)

text \<open>
  C1. The loop of \<^verbatim>\<open>traverse_repository\<close> overwrites \<^verbatim>\<open>retval\<close> with the result of each
  call, so the value returned is the result of the last call made. On a directory whose
  first page cannot be read and whose second page is rewritten, the traversal returns
  \<^verbatim>\<open>SUCCESS\<close>, although \<^verbatim>\<open>highlight_file\<close> returned \<^verbatim>\<open>FAILURE\<close> for the first page.
\<close>

theorem later_success_masks_failure:
  "traverse_repository stub_env ''site''
     [(''a.c.html'', File Unreadable), (''b.c.html'', File (Text anchor1))] =
   \<lparr>outcome = Inr SUCCESS,
    tree_after = [(''a.c.html'', File Unreadable),
       (''b.c.html'', File (Text ''<a href=\"#l1\" class=\"line\" id=\"l1\">      1</a> int x = 1;\<newline>''))],
    calls = [''site/a.c.html'', ''site/b.c.html''],
    errs = [FailedToOpen ''site/a.c.html'']\<rparr> \<and>
   returned (highlight_file stub_env ''site/a.c.html'' Unreadable) = Inr FAILURE"
proof -
  have a: "highlight_file stub_env ''site/a.c.html'' Unreadable =
     \<lparr>returned = Inr FAILURE, file_after = Unreadable, stderr = [FailedToOpen ''site/a.c.html'']\<rparr>"
    by (rule highlight_file_unreadable [of _ _ "()"]) (simp add: path_defs)
  have j: "path_join ''site'' ''a.c.html'' = ''site/a.c.html''"
     "path_join ''site'' ''b.c.html'' = ''site/b.c.html''" by (simp_all add: path_defs)
  have d: "\<not> isdir_in ''site'' [(''a.c.html'', File Unreadable), (''b.c.html'', File (Text anchor1))]
             (removesuffix ''.html'' ''site/a.c.html'')"
     "\<not> isdir_in ''site'' [(''a.c.html'', File Unreadable), (''b.c.html'', File (Text anchor1))]
             (removesuffix ''.html'' ''site/b.c.html'')"
    by (simp_all add: path_defs)
  show ?thesis by (simp add: j d a hf_good Let_def)
qed























subsection \<open>The minimal page\<close>

lemmas line_defs = stylesheet_line_def rawlink_line_def anchor1_def anchor2_def opener_def closer_def

lemma readlines_fixture:
  "readlines fixture = [stylesheet_line, opener, rawlink_line, anchor1, anchor2, closer]"
  by (simp add: fixture_def line_defs nl_def)

lemma pass1_fixture:
  \<open>pass1 [stylesheet_line, opener, rawlink_line, anchor1, anchor2, closer] =
     \<lparr>code = ''int x = 1;\<newline>int x = 2;\<newline>'', in_content = True,
      written = [stylesheet_line @ ''<link rel="stylesheet" type="text/css" href="syntax.css"/>\<newline>'',
                 opener,
                 ''<p> x.c (22B) <a href="raw/x.c">raw</a></p><hr/><div class="highlight"><pre id=blob">\<newline>'',
                 anchor1, anchor2, closer @ ''</div>'']\<rparr>\<close>
  by (simp add: line_defs eval_defs)

lemma readlines_pass1_fixture:
  \<open>readlines (pass1_file fixture) =
     [stylesheet_line, ''<link rel="stylesheet" type="text/css" href="syntax.css"/>\<newline>'',
      opener,
      ''<p> x.c (22B) <a href="raw/x.c">raw</a></p><hr/><div class="highlight"><pre id=blob">\<newline>'',
      anchor1, anchor2, closer, ''</div>'']\<close>
  by (simp add: pass1_file_def readlines_fixture pass1_fixture) (simp add: line_defs nl_def)


lemma match_prefix_fixture_others:
  \<open>match_prefix stylesheet_line = None\<close>
  \<open>match_prefix ''<link rel="stylesheet" type="text/css" href="syntax.css"/>\<newline>'' = None\<close>
  \<open>match_prefix opener = None\<close>
  \<open>match_prefix ''<p> x.c (22B) <a href="raw/x.c">raw</a></p><hr/><div class="highlight"><pre id=blob">\<newline>'' = None\<close>
  \<open>match_prefix closer = None\<close>
  \<open>match_prefix ''</div>'' = None\<close>
  by (simp_all add: line_defs match_prefix_def re_anchor_def)

lemma injected_fixture:
  \<open>injected cl 0
     [stylesheet_line, ''<link rel="stylesheet" type="text/css" href="syntax.css"/>\<newline>'',
      opener,
      ''<p> x.c (22B) <a href="raw/x.c">raw</a></p><hr/><div class="highlight"><pre id=blob">\<newline>'',
      anchor1, anchor2, closer, ''</div>''] =
     [stylesheet_line, ''<link rel="stylesheet" type="text/css" href="syntax.css"/>\<newline>'',
      opener,
      ''<p> x.c (22B) <a href="raw/x.c">raw</a></p><hr/><div class="highlight"><pre id=blob">\<newline>'',
      ''<a href="#l1" class="line" id="l1">      1</a> '' @ cl ! 0 @ [nl],
      ''<a href="#l2" class="line" id="l2">      2</a> '' @ cl ! 1 @ [nl],
      closer, ''</div>'']\<close>
  by (simp add: match_prefix_fixture_others match_prefix_anchor1 match_prefix_anchor2)

lemma anchor_count_fixture:
  \<open>anchor_count
     [stylesheet_line, ''<link rel="stylesheet" type="text/css" href="syntax.css"/>\<newline>'',
      opener,
      ''<p> x.c (22B) <a href="raw/x.c">raw</a></p><hr/><div class="highlight"><pre id=blob">\<newline>'',
      anchor1, anchor2, closer, ''</div>''] = 2\<close>
  by (simp add: anchor_count_def match_prefix_fixture_others match_prefix_anchor1 match_prefix_anchor2)

text \<open>
  C10. On the minimal page, for a pathname with a lexer: let \<open>out\<close> be what the
  highlighter returns for the code buffer, HTML-unescaped (the buffer is the two code lines
  \<^verbatim>\<open>int x = 1;\<close> and \<^verbatim>\<open>int x = 2;\<close>, each with its line feed), and let \<open>cl\<close> be the lines of
  \<open>out\<close> after the wrapping prefix. When \<open>cl\<close> has at least two lines, the file after both
  passes has the stylesheet link followed by the link to \<^verbatim>\<open>syntax.css\<close>, the wrapper
  \<^verbatim>\<open><div class="highlight">\<close> opened in the raw-link line after \<^verbatim>\<open><hr/>\<close>, the two anchor
  prefixes followed by the first and the second line of the highlighter's output, in that
  order, and the content close followed by a second \<^verbatim>\<open></div>\<close>.
\<close>

theorem fixture_page_highlighted:
  assumes lexer: "get_lexer_for_filename E ''x.c'' = Some lexer"
    and out: "out = pygments_highlight E (html_unescape E ''int x = 1;\<newline>int x = 2;\<newline>'') lexer"
    and cl: \<open>cl = split_nl (removeprefix ''<div class="highlight"><pre>'' out)\<close>
    and two: "2 \<le> length cl"
  shows \<open>highlight_file E ''x.c.html'' (Text fixture) =
     \<lparr>returned = Inr SUCCESS,
      file_after = Text (concat
        [stylesheet_line,
         ''<link rel="stylesheet" type="text/css" href="syntax.css"/>\<newline>'',
         opener,
         ''<p> x.c (22B) <a href="raw/x.c">raw</a></p><hr/><div class="highlight"><pre id=blob">\<newline>'',
         ''<a href="#l1" class="line" id="l1">      1</a> '' @ cl ! 0 @ [nl],
         ''<a href="#l2" class="line" id="l2">      2</a> '' @ cl ! 1 @ [nl],
         closer,
         ''</div>'']),
      stderr = []\<rparr>\<close>
proof -
  let ?ls = \<open>[stylesheet_line, ''<link rel="stylesheet" type="text/css" href="syntax.css"/>\<newline>'',
      opener,
      ''<p> x.c (22B) <a href="raw/x.c">raw</a></p><hr/><div class="highlight"><pre id=blob">\<newline>'',
      anchor1, anchor2, closer, ''</div>'']\<close>
  let ?init = "\<lparr>raised = None, cursor = 0, emitted = []\<rparr>"
  have lx: "get_lexer_for_filename E (removesuffix ''.html'' ''x.c.html'') = Some lexer"
    using lexer by (simp add: removesuffix_def suffix_to_prefix)
  have buf: "code (pass1 (readlines fixture)) = ''int x = 1;\<newline>int x = 2;\<newline>''"
    by (simp only: readlines_fixture pass1_fixture pass1_state.simps)
  have c: "codelines E lexer ''int x = 1;\<newline>int x = 2;\<newline>'' = cl"
    by (simp only: codelines_def cl out)
  from two have "cursor ?init + anchor_count ?ls \<le> length cl"
    by (simp only: anchor_count_fixture) simp
  from pass2_loop_in_range [OF this]
  have p2: "pass2 cl ?ls = ?init\<lparr>cursor := 2, emitted := injected cl 0 ?ls\<rparr>"
    by (simp only: pass2_def anchor_count_fixture) simp
  show ?thesis
    by (simp only: highlight_file_text [OF lx] buf c readlines_pass1_fixture p2 injected_fixture
        Let_def) simp
qed

lemma marking_out_fixture:
  \<open>pygments_highlight marking_env
       (html_unescape marking_env ''int x = 1;\<newline>int x = 2;\<newline>'') () =
     ''<div class="highlight"><pre><span class="n">int x = 1;</span>\<newline><span class="n">int x = 2;</span>\<newline></pre></div>\<newline>''\<close>
  by (simp add: marking_env_def stub_env_def nl_def)

lemma marking_lexer_c: "get_lexer_for_filename marking_env ''x.c'' = Some ()"
  by (simp add: marking_env_def stub_env_def suffix_to_prefix)

theorem fixture_page_highlighted_witness:
  \<open>highlight_file marking_env ''x.c.html'' (Text fixture) =
     \<lparr>returned = Inr SUCCESS,
      file_after = Text
        ''<link rel="stylesheet" type="text/css" href="style.css"/>\<newline><link rel="stylesheet" type="text/css" href="syntax.css"/>\<newline><div id="content">\<newline><p> x.c (22B) <a href="raw/x.c">raw</a></p><hr/><div class="highlight"><pre id=blob">\<newline><a href="#l1" class="line" id="l1">      1</a> <span class="n">int x = 1;</span>\<newline><a href="#l2" class="line" id="l2">      2</a> <span class="n">int x = 2;</span>\<newline></div>\<newline></div>'',
      stderr = []\<rparr>\<close>
proof -
  let ?out = \<open>''<div class="highlight"><pre><span class="n">int x = 1;</span>\<newline><span class="n">int x = 2;</span>\<newline></pre></div>\<newline>''\<close>
  let ?cl = \<open>[''<span class="n">int x = 1;</span>'', ''<span class="n">int x = 2;</span>'',
      ''</pre></div>'', []]\<close>
  have o: "?out = pygments_highlight marking_env
       (html_unescape marking_env ''int x = 1;\<newline>int x = 2;\<newline>'') ()"
    by (simp only: marking_out_fixture)
  have c: \<open>?cl = split_nl (removeprefix ''<div class="highlight"><pre>'' ?out)\<close>
    by (simp add: removeprefix_def nl_def)
  have t: "2 \<le> length ?cl" by simp
  from fixture_page_highlighted [OF marking_lexer_c o c t] show ?thesis
    by (simp add: line_defs nl_def)
qed

subsection \<open>The lines of the file between the passes\<close>

lemma readlines_line:
  "nl \<notin> set s \<Longrightarrow> readlines (s @ nl # t) = (s @ [nl]) # readlines t"
  by (induction s) auto

lemma readlines_last:
  "nl \<notin> set s \<Longrightarrow> s \<noteq> [] \<Longrightarrow> readlines s = [s]"
proof (induction s)
  case Nil
  then show ?case by simp
next
  case (Cons c s)
  then show ?case by (cases "s = []") auto
qed

lemma readlines_Nil_iff: "(readlines t = []) = (t = [])"
  by (cases t) (auto split: list.splits)

lemma line_ok_cases:
  assumes "line_ok l"
  obtains s where "l = s @ [nl]" "nl \<notin> set s" | "nl \<notin> set l" "l \<noteq> []"
proof -
  from assms have ne: "l \<noteq> []" and b: "nl \<notin> set (butlast l)" by (simp_all add: line_ok_def)
  from ne have l: "l = butlast l @ [last l]" by simp
  show ?thesis
  proof (cases "last l = nl")
    case True
    with l have eq: "l = butlast l @ [nl]" by simp
    from that(1) [OF eq b] show ?thesis .
  next
    case False
    have "set l = set (butlast l @ [last l])" using l by simp
    with b False have "nl \<notin> set l" by simp
    from that(2) [OF this ne] show ?thesis .
  qed
qed


lemma lines_ok_readlines: "lines_ok (readlines t)"
proof (induction t rule: readlines.induct)
  case 1
  then show ?case by simp
next
  case (2 c cs)
  show ?case
  proof (cases "c = nl")
    case True
    with 2 show ?thesis by (simp add: line_ok_def)
  next
    case False
    show ?thesis
    proof (cases "readlines cs")
      case Nil
      with False show ?thesis by (simp add: line_ok_def)
    next
      case (Cons l ls)
      with 2 False have l: "line_ok l" "ls \<noteq> [] \<longrightarrow> last l = nl" "lines_ok ls" by simp_all
      from l(1) have "l \<noteq> []" by (simp add: line_ok_def)
      with l(1) False have "line_ok (c # l)" by (simp add: line_ok_def)
      moreover from \<open>l \<noteq> []\<close> have "last (c # l) = last l" by simp
      ultimately show ?thesis using False Cons l by simp
    qed
  qed
qed

lemma replace_no_nl:
  "old \<noteq> [] \<Longrightarrow> nl \<notin> set new \<Longrightarrow> nl \<notin> set s \<Longrightarrow> nl \<notin> set (replace old new s)"
proof (induction old new s rule: replace.induct)
  case (1 old new)
  then show ?case by simp
next
  case (2 old new c cs)
  have "nl \<notin> set (drop (length old) (c # cs))"
    using "2.prems"(3) by (meson in_set_dropD)
  with 2 show ?case by auto
qed

lemma replace_snoc_nl:
  "old \<noteq> [] \<Longrightarrow> nl \<notin> set old \<Longrightarrow> replace old new (s @ [nl]) = replace old new s @ [nl]"
proof (induction old new s rule: replace.induct)
  case (1 old new)
  then have "\<not> prefix old [nl]" by (cases old) auto
  with 1 show ?case by simp
next
  case (2 old new c cs)
  have p: "prefix old (c # cs @ [nl]) = prefix old (c # cs)"
  proof -
    have "prefix old ((c # cs) @ [nl]) = (old = (c # cs) @ [nl] \<or> prefix old (c # cs))"
      by (rule prefix_snoc)
    moreover have "old \<noteq> (c # cs) @ [nl]" using "2.prems"(2) by auto
    ultimately show ?thesis by simp
  qed
  show ?case
  proof (cases "prefix old (c # cs)")
    case True
    then have "length old \<le> length (c # cs)" by (rule prefix_length_le)
    then have "drop (length old) ((c # cs) @ [nl]) = drop (length old) (c # cs) @ [nl]"
      unfolding drop_append by simp
    then have "drop (length old) (c # cs @ [nl]) = drop (length old) (c # cs) @ [nl]" by simp
    with 2 True p show ?thesis by simp
  next
    case False
    with 2 p show ?thesis by simp
  qed
qed


lemma not_anchor_lt:
  assumes "c \<noteq> CHR ''a''"
  shows "match_prefix (CHR ''<'' # c # t) = None"
proof (rule ccontr)
  assume "match_prefix (CHR ''<'' # c # t) \<noteq> None"
  from match_prefix_starts [OF this] assms show False by simp
qed

lemma pend_no_nl: "nl \<notin> set (pend g)"
  by (simp add: pend_def nl_def)

lemma pend_not_anchor: "g \<Longrightarrow> match_prefix (pend g @ u) = None"
  by (simp add: pend_def not_anchor_lt)

lemma pend_anchor: "g \<longrightarrow> match_prefix l = None \<Longrightarrow> match_prefix (pend g @ l) = match_prefix l"
  by (cases g) (simp_all add: pend_not_anchor, simp add: pend_def)

lemma count_line:
  "nl \<notin> set s \<Longrightarrow>
   anchor_count (readlines (s @ nl # X)) =
     (if match_prefix (s @ [nl]) \<noteq> None then 1 else 0) + anchor_count (readlines X)"
  by (simp add: readlines_line anchor_count_Cons)

lemma count_last:
  "nl \<notin> set s \<Longrightarrow> s \<noteq> [] \<Longrightarrow>
   anchor_count (readlines s) = (if match_prefix s \<noteq> None then 1 else 0)"
  by (simp add: readlines_last anchor_count_Cons anchor_count_Nil)

lemma stylesheet_starts: "match_stylesheet l \<Longrightarrow> \<exists>t. l = CHR ''<'' # CHR ''l'' # t"
proof -
  assume "match_stylesheet l"
  then have "prefix ''<link rel=\"stylesheet\" type=\"text/css\" href=\"'' l"
    unfolding match_stylesheet_def by (rule re_lit_prefix)
  then show ?thesis by (auto simp: prefix_def)
qed

lemma rawlink_starts: "match_rawlink l \<Longrightarrow> \<exists>t. l = CHR ''<'' # CHR ''p'' # t"
proof -
  assume "match_rawlink l"
  then have "prefix ''<p> '' l"
    unfolding match_rawlink_def by (rule re_lit_prefix)
  then show ?thesis by (auto simp: prefix_def)
qed

lemma closer_not_stylesheet: "\<not> match_stylesheet closer"
  by (simp add: match_stylesheet_def closer_def)

lemma printed_for_cases:
  \<open>(match_stylesheet l \<and> l \<noteq> closer \<and>
      printed_for b l = l @ replace ''style.css'' ''syntax.css'' l) \<or>
   (b \<and> l = closer \<and> printed_for b l = closer @ ''</div>'') \<or>
   (match_rawlink l \<and> l \<noteq> closer \<and>
      printed_for b l = replace ''<hr/>'' ''<hr/><div class="highlight">'' l) \<or>
   (\<not> (b \<and> l = closer) \<and> printed_for b l = l)\<close>
  using closer_not_stylesheet
  by (auto simp: printed_for_def pass1_step_def py_print_def Let_def closer_def
      split: option.splits)


lemma incomplete_last:
  assumes "nl \<notin> set l" and "l \<noteq> []" and "X \<noteq> [] \<longrightarrow> last l = nl"
  shows "X = []"
proof (rule ccontr)
  assume "X \<noteq> []"
  with assms(3) have "last l = nl" by simp
  with assms(2) have "nl \<in> set l" using last_in_set by metis
  with assms(1) show False by simp
qed

lemma replace_style_head:
  "replace ''style.css'' ''syntax.css'' (CHR ''<'' # CHR ''l'' # t) =
     CHR ''<'' # CHR ''l'' # replace ''style.css'' ''syntax.css'' t"
  by simp

lemma replace_hr_head:
  \<open>replace ''<hr/>'' ''<hr/><div class="highlight">'' (CHR ''<'' # CHR ''p'' # t) =
     CHR ''<'' # CHR ''p'' # replace ''<hr/>'' ''<hr/><div class="highlight">'' t\<close>
  by simp

lemma step_same:
  assumes ok: "line_ok l" and tail: "X \<noteq> [] \<longrightarrow> last l = nl"
    and g: "g \<longrightarrow> match_prefix l = None"
  shows "anchor_count (readlines (pend g @ l @ X)) =
      (if match_prefix l \<noteq> None then 1 else 0) + anchor_count (readlines X)"
  using ok
proof (cases rule: line_ok_cases)
  case (1 s)
  have "nl \<notin> set (pend g @ s)" using 1(2) pend_no_nl by simp
  from count_line [OF this, of X] pend_anchor [OF g] 1(1) show ?thesis by simp
next
  case 2
  from incomplete_last [OF 2 tail] have X: "X = []" .
  have "nl \<notin> set (pend g @ l)" "pend g @ l \<noteq> []" using 2 pend_no_nl by simp_all
  from count_last [OF this] pend_anchor [OF g] X show ?thesis
    by (simp add: anchor_count_Nil)
qed

lemma step_doubled:
  "anchor_count (readlines (pend g @ (closer @ ''</div>'') @ X)) =
     anchor_count (readlines (''</div>'' @ X))"
proof -
  have n: "nl \<notin> set (pend g @ ''</div>'')" using pend_no_nl by (simp add: nl_def)
  have m: "match_prefix ((pend g @ ''</div>'') @ [nl]) = None"
    by (cases g) (simp_all add: pend_not_anchor, simp add: pend_def not_anchor_lt)
  have e: "pend g @ (closer @ ''</div>'') @ X = (pend g @ ''</div>'') @ nl # (''</div>'' @ X)"
    by (simp add: closer_def)
  have "anchor_count (readlines ((pend g @ ''</div>'') @ nl # (''</div>'' @ X))) =
      (if match_prefix ((pend g @ ''</div>'') @ [nl]) \<noteq> None then 1 else 0) +
      anchor_count (readlines (''</div>'' @ X))"
    by (rule count_line [OF n])
  then have "anchor_count (readlines ((pend g @ ''</div>'') @ nl # (''</div>'' @ X))) =
      anchor_count (readlines (''</div>'' @ X))"
    by (simp only: m simp_thms if_False add_0)
  then show ?thesis by (simp only: e)
qed

lemma step_replaced:
  assumes ok: "line_ok l" and tail: "X \<noteq> [] \<longrightarrow> last l = nl"
    and old: "old \<noteq> []" "nl \<notin> set old" and new: "nl \<notin> set new"
    and l: "l = CHR ''<'' # c # t" and r: "replace old new l = CHR ''<'' # c # t'"
    and c: "c \<noteq> CHR ''a''"
  shows "anchor_count (readlines (pend g @ replace old new l @ X)) = anchor_count (readlines X)"
    and "anchor_count (readlines (pend g @ (l @ replace old new l) @ X)) = anchor_count (readlines X)"
proof -
  have ml: "match_prefix l = None" using c by (simp add: l not_anchor_lt)
  have mr: "match_prefix (replace old new l) = None" using c by (simp add: r not_anchor_lt)
  have mg: "\<And>u. match_prefix (pend g @ CHR ''<'' # c # u) = None"
    using c by (cases g) (simp_all add: pend_not_anchor, simp add: pend_def not_anchor_lt)
  from ok have
    "anchor_count (readlines (pend g @ replace old new l @ X)) = anchor_count (readlines X) \<and>
     anchor_count (readlines (pend g @ (l @ replace old new l) @ X)) = anchor_count (readlines X)"
  proof (cases rule: line_ok_cases)
    case (1 s)
    from replace_snoc_nl [OF old, of new s] 1(1)
    have rs: "replace old new l = replace old new s @ [nl]" by simp
    have nr: "nl \<notin> set (replace old new s)" using old(1) new 1(2) by (rule replace_no_nl)
    have a: "nl \<notin> set (pend g @ replace old new s)" using nr pend_no_nl by simp
    have b: "nl \<notin> set (pend g @ s)" using 1(2) pend_no_nl by simp
    have m1: "match_prefix ((pend g @ replace old new s) @ [nl]) = None"
      using mg [of t'] rs r by simp
    have m2: "match_prefix ((pend g @ s) @ [nl]) = None"
      using mg [of t] 1(1) l by simp
    have m3: "match_prefix (replace old new s @ [nl]) = None" using mr rs by simp
    have e1: "pend g @ replace old new l @ X = (pend g @ replace old new s) @ nl # X"
      by (simp add: rs)
    have e2: "pend g @ (l @ replace old new l) @ X =
        (pend g @ s) @ nl # (replace old new s @ nl # X)"
      by (simp only: rs) (simp add: 1(1))
    from count_line [OF a, of X] m1 e1
    have "anchor_count (readlines (pend g @ replace old new l @ X)) = anchor_count (readlines X)"
      by simp
    moreover from count_line [OF b, of "replace old new s @ nl # X"] count_line [OF nr, of X] m2 m3 e2
    have "anchor_count (readlines (pend g @ (l @ replace old new l) @ X)) = anchor_count (readlines X)"
      by simp
    ultimately show ?thesis by blast
  next
    case 2
    from incomplete_last [OF 2 tail] have X: "X = []" .
    have nr: "nl \<notin> set (replace old new l)" using old(1) new 2(1) by (rule replace_no_nl)
    have a: "nl \<notin> set (pend g @ replace old new l)" "pend g @ replace old new l \<noteq> []"
      using nr pend_no_nl r by simp_all
    have b: "nl \<notin> set (pend g @ l @ replace old new l)" "pend g @ l @ replace old new l \<noteq> []"
      using nr 2 pend_no_nl by simp_all
    have m1: "match_prefix (pend g @ replace old new l) = None" using mg [of t'] r by simp
    have m2: "match_prefix (pend g @ l @ replace old new l) = None"
      using mg [of "t @ replace old new l"] l by simp
    from count_last [OF a] count_last [OF b] m1 m2 X show ?thesis
      by (simp add: anchor_count_Nil)
  qed
  then show "anchor_count (readlines (pend g @ replace old new l @ X)) = anchor_count (readlines X)"
    and "anchor_count (readlines (pend g @ (l @ replace old new l) @ X)) = anchor_count (readlines X)"
    by blast+
qed


lemma step_count:
  assumes ok: "line_ok l" and tail: "X \<noteq> [] \<longrightarrow> last l = nl"
    and g: "g \<longrightarrow> match_prefix l = None"
  shows "anchor_count (readlines (pend g @ printed_for b l @ X)) =
      (if b \<and> l = closer then anchor_count (readlines (''</div>'' @ X))
       else (if match_prefix l \<noteq> None then 1 else 0) + anchor_count (readlines X))"
proof -
  note sn = nl_def
  consider
    (sty) "match_stylesheet l" "l \<noteq> closer"
      "printed_for b l = l @ replace ''style.css'' ''syntax.css'' l"
  | (dbl) "b" "l = closer" "printed_for b l = closer @ ''</div>''"
  | (raw) "match_rawlink l" "l \<noteq> closer"
      \<open>printed_for b l = replace ''<hr/>'' ''<hr/><div class="highlight">'' l\<close>
  | (same) "\<not> (b \<and> l = closer)" "printed_for b l = l"
    using printed_for_cases [of l b] by blast
  then show ?thesis
  proof cases
    case sty
    from stylesheet_starts [OF sty(1)] obtain t where l: "l = CHR ''<'' # CHR ''l'' # t" by blast
    have r: "replace ''style.css'' ''syntax.css'' l =
        CHR ''<'' # CHR ''l'' # replace ''style.css'' ''syntax.css'' t"
      unfolding l by (rule replace_style_head)
    have "anchor_count (readlines (pend g @ (l @ replace ''style.css'' ''syntax.css'' l) @ X)) =
        anchor_count (readlines X)"
      by (rule step_replaced(2) [OF ok tail _ _ _ l r]) (simp_all add: nl_def)
    moreover have ml: "match_prefix l = None" by (simp add: l not_anchor_lt)
    moreover have nb: "\<not> (b \<and> l = closer)" using sty(2) by simp
    ultimately show ?thesis
      unfolding sty(3) if_not_P [OF nb] by (simp only: ml simp_thms if_False add_0)
  next
    case dbl
    from dbl(1,2) have c: "b \<and> l = closer" by simp
    from step_doubled [of g X] show ?thesis
      unfolding dbl(3) if_P [OF c] .
  next
    case raw
    from rawlink_starts [OF raw(1)] obtain t where l: "l = CHR ''<'' # CHR ''p'' # t" by blast
    have r: \<open>replace ''<hr/>'' ''<hr/><div class="highlight">'' l =
        CHR ''<'' # CHR ''p'' # replace ''<hr/>'' ''<hr/><div class="highlight">'' t\<close>
      unfolding l by (rule replace_hr_head)
    have \<open>anchor_count (readlines (pend g @ replace ''<hr/>'' ''<hr/><div class="highlight">'' l @ X)) =
        anchor_count (readlines X)\<close>
      by (rule step_replaced(1) [OF ok tail _ _ _ l r]) (simp_all add: nl_def)
    moreover have ml: "match_prefix l = None" by (simp add: l not_anchor_lt)
    moreover have nb: "\<not> (b \<and> l = closer)" using raw(2) by simp
    ultimately show ?thesis
      unfolding raw(3) if_not_P [OF nb] by (simp only: ml simp_thms if_False add_0)
  next
    case same
    from step_same [OF ok tail g] show ?thesis
      unfolding same(2) if_not_P [OF same(1)] .
  qed
qed

lemma closer_not_anchor: "match_prefix closer = None"
  by (simp add: closer_def not_anchor_lt)

lemma concat_printed_Nil: "concat (printed_lines b ls) \<noteq> [] \<Longrightarrow> ls \<noteq> []"
  by auto

lemma glued_count:
  "lines_ok ls \<Longrightarrow> glue_free b ls \<Longrightarrow> (g \<and> ls \<noteq> [] \<longrightarrow> match_prefix (hd ls) = None) \<Longrightarrow>
   anchor_count (readlines (pend g @ concat (printed_lines b ls))) = anchor_count ls"
proof (induction ls arbitrary: b g)
  case Nil
  show ?case
  proof (cases g)
    case True
    have "nl \<notin> set (pend g)" "pend g \<noteq> []" using True by (simp_all add: pend_def nl_def)
    from count_last [OF this] pend_not_anchor [OF True, of "[]"] show ?thesis
      by (simp add: anchor_count_Nil)
  next
    case False
    then show ?thesis by (simp add: pend_def anchor_count_Nil)
  qed
next
  case (Cons l rest)
  let ?b = "b \<or> l = opener"
  let ?X = "concat (printed_lines ?b rest)"
  from Cons.prems(1) have ok: "line_ok l" and rest_ok: "lines_ok rest"
    and last: "rest \<noteq> [] \<longrightarrow> last l = nl" by simp_all
  have tail: "?X \<noteq> [] \<longrightarrow> last l = nl" using last concat_printed_Nil by blast
  from Cons.prems(3) have g: "g \<longrightarrow> match_prefix l = None" by simp
  have gf: "glue_free ?b rest" using Cons.prems(2) by (cases rest) simp_all
  note step = step_count [OF ok tail g, of b]
  show ?case
  proof (cases "b \<and> l = closer")
    case True
    have "True \<and> rest \<noteq> [] \<longrightarrow> match_prefix (hd rest) = None"
      using Cons.prems(2) True by (cases rest) simp_all
    from Cons.IH [OF rest_ok gf this]
    have "anchor_count (readlines (''</div>'' @ ?X)) = anchor_count rest"
      by (simp only: pend_def if_True)
    with step True closer_not_anchor show ?thesis
      by (simp only: printed_lines.simps concat.simps anchor_count_Cons append_assoc)
        (simp del: readlines.simps)
  next
    case False
    have "False \<and> rest \<noteq> [] \<longrightarrow> match_prefix (hd rest) = None" by simp
    from Cons.IH [OF rest_ok gf this]
    have "anchor_count (readlines ?X) = anchor_count rest"
      by (simp only: pend_def if_False append_Nil)
    with step False show ?thesis
      by (simp only: printed_lines.simps concat.simps anchor_count_Cons append_assoc)
        (simp del: readlines.simps)
  qed
qed

lemma pass1_file_anchor_count:
  "glue_free False (readlines data) \<Longrightarrow>
   anchor_count (readlines (pass1_file data)) = anchor_count (readlines data)"
  using glued_count [OF lines_ok_readlines, of False data False]
  by (simp add: pass1_file_def pass1_written pend_def)

lemma match_code_count: "length (filter (\<lambda>l. match_code l \<noteq> None) ls) = anchor_count ls"
  by (simp add: anchor_count_def match_code_iff_prefix)


text \<open>
  \<open>glue_free\<close> in words: no line that matches the anchor pattern comes directly after a
  line that is exactly \<^verbatim>\<open></div>\<close> and that has the opener (or a set flag) before it.
\<close>

lemma all_nat_0_Suc: "(\<forall>i. P i) = (P 0 \<and> (\<forall>k. P (Suc k)))"
  by (metis not0_implies_Suc)

lemma glue_free_iff:
  "glue_free b ls =
     (\<forall>i. Suc i < length ls \<and> ls ! i = closer \<and> (b \<or> opener \<in> set (take i ls)) \<longrightarrow>
          match_prefix (ls ! Suc i) = None)"
proof (induction b ls rule: glue_free.induct)
  case (1 b)
  show ?case by simp
next
  case (2 b l)
  show ?case by simp
next
  case (3 b l l' ls)
  have ne: "opener \<noteq> closer" by (simp add: opener_def closer_def)
  have "(\<forall>i. Suc i < length (l # l' # ls) \<and> (l # l' # ls) ! i = closer \<and>
            (b \<or> opener \<in> set (take i (l # l' # ls))) \<longrightarrow>
          match_prefix ((l # l' # ls) ! Suc i) = None) =
        ((l = closer \<and> b \<longrightarrow> match_prefix l' = None) \<and>
         (\<forall>k. Suc k < length (l' # ls) \<and> (l' # ls) ! k = closer \<and>
            ((b \<or> l = opener) \<or> opener \<in> set (take k (l' # ls))) \<longrightarrow>
          match_prefix ((l' # ls) ! Suc k) = None))"
    by (subst all_nat_0_Suc) auto
  with 3 show ?case by auto
qed

text \<open>
  C6 (as amended). Pass 1 prints the extra \<^verbatim>\<open></div>\<close> after a content close without a line
  feed, so in the file it writes the following line continues the \<^verbatim>\<open></div>\<close>. For every
  input file in which no anchor line comes directly after such a doubled \<^verbatim>\<open></div>\<close> line,
  the file after pass 1 has exactly as many anchor lines as pass 1 matched; and when the
  highlighted line sequence has at least that many elements, pass 2 raises nothing and
  consumes exactly that many.
\<close>

theorem anchor_counts_agree:
  assumes "glue_free False (readlines data)"
  shows "anchor_count (readlines (pass1_file data)) =
           length (filter (\<lambda>l. match_code l \<noteq> None) (readlines data)) \<and>
         (length (filter (\<lambda>l. match_code l \<noteq> None) (readlines data)) \<le> length cl \<longrightarrow>
            raised (pass2 cl (readlines (pass1_file data))) = None \<and>
            cursor (pass2 cl (readlines (pass1_file data))) =
              length (filter (\<lambda>l. match_code l \<noteq> None) (readlines data)))"
proof (intro conjI impI)
  from pass1_file_anchor_count [OF assms]
  show c: "anchor_count (readlines (pass1_file data)) =
           length (filter (\<lambda>l. match_code l \<noteq> None) (readlines data))"
    by (simp only: match_code_count)
  assume "length (filter (\<lambda>l. match_code l \<noteq> None) (readlines data)) \<le> length cl"
  with c have
    "cursor \<lparr>raised = None, cursor = 0, emitted = []\<rparr> + anchor_count (readlines (pass1_file data))
      \<le> length cl" by simp
  from pass2_loop_in_range [OF this] c [unfolded match_code_count]
  show "raised (pass2 cl (readlines (pass1_file data))) = None"
    and "cursor (pass2 cl (readlines (pass1_file data))) =
              length (filter (\<lambda>l. match_code l \<noteq> None) (readlines data))"
    by (simp_all only: match_code_count pass2_def) simp_all
qed


lemma match_code_anchor1: "match_code anchor1 = Some ''int x = 1;''"
  by (simp add: anchor1_def eval_defs)

lemma match_code_anchor2: "match_code anchor2 = Some ''int x = 2;''"
  by (simp add: anchor2_def eval_defs)

lemma readlines_glued_page: "readlines glued_page = [opener, closer, anchor1]"
  by (simp add: glued_page_def opener_def closer_def anchor1_def nl_def)

lemma readlines_pass1_glued_page:
  "readlines (pass1_file glued_page) = [opener, closer, ''</div>'' @ anchor1]"
  by (simp add: pass1_file_def readlines_glued_page)
    (simp add: opener_def closer_def anchor1_def eval_defs)

text \<open>
  The claim as stated holds for every input file. On a page whose anchor line comes
  directly after the content close, pass 1 matches one anchor line, the file it writes has
  that line glued to the extra \<^verbatim>\<open></div>\<close>, and pass 2 consumes nothing, although the
  highlighter returned enough lines.
\<close>

theorem anchor_counts_counterexample:
  "length (filter (\<lambda>l. match_code l \<noteq> None) (readlines glued_page)) = 1 \<and>
   readlines (pass1_file glued_page) = [opener, closer, ''</div>'' @ anchor1] \<and>
   length (codelines stub_env () (code (pass1 (readlines glued_page)))) = 3 \<and>
   cursor (pass2 (codelines stub_env () (code (pass1 (readlines glued_page))))
     (readlines (pass1_file glued_page))) = 0 \<and>
   returned (highlight_file stub_env ''x.c.html'' (Text glued_page)) = Inr SUCCESS"
proof -
  have m: "match_code opener = None" "match_code closer = None"
    "match_prefix opener = None" "match_prefix closer = None"
    "match_prefix (''</div>'' @ anchor1) = None"
    by (simp_all add: match_code_iff_prefix opener_def closer_def not_anchor_lt)
  have 1: "length (filter (\<lambda>l. match_code l \<noteq> None) (readlines glued_page)) = 1"
    by (simp add: readlines_glued_page m match_code_anchor1)
  have b: "code (pass1 (readlines glued_page)) = ''int x = 1;\<newline>''"
    by (simp add: readlines_glued_page pass1_code code_piece_def m match_code_anchor1 nl_def)
  have 3: "length (codelines stub_env () (code (pass1 (readlines glued_page)))) = 3"
    by (simp add: b codelines_def stub_env_def removeprefix_def nl_def)
  have p: "pass2 cl (readlines (pass1_file glued_page)) =
      \<lparr>raised = None, cursor = 0, emitted = [opener, closer, ''</div>'' @ anchor1]\<rparr>" for cl
    by (simp add: readlines_pass1_glued_page pass2_def m not_anchor_lt)
  have l: "get_lexer_for_filename stub_env (removesuffix ''.html'' ''x.c.html'') = Some ()"
    by (simp add: stub_env_def removesuffix_def suffix_to_prefix)
  have 5: "returned (highlight_file stub_env ''x.c.html'' (Text glued_page)) = Inr SUCCESS"
    by (simp add: highlight_file_text [OF l] p Let_def)
  from 1 readlines_pass1_glued_page 3 p 5 show ?thesis by simp
qed

lemma readlines_closed_page:
  \<open>readlines closed_page =
     [stylesheet_line, opener, rawlink_line, anchor1, anchor2, closer, ''</body>\<newline>'']\<close>
  by (simp add: closed_page_def fixture_def line_defs nl_def)

theorem anchor_counts_agree_witness:
  "anchor_count (readlines (pass1_file closed_page)) = 2 \<and>
   cursor (pass2 [''A'', ''B''] (readlines (pass1_file closed_page))) = 2"
proof -
  have m: "match_code stylesheet_line = None" "match_code opener = None"
    "match_code rawlink_line = None" "match_code closer = None"
    \<open>match_code ''</body>\<newline>'' = None\<close> \<open>match_prefix ''</body>\<newline>'' = None\<close>
    by (simp_all add: match_code_iff_prefix line_defs not_anchor_lt)
  have d: "stylesheet_line \<noteq> closer" "opener \<noteq> closer" "rawlink_line \<noteq> closer"
    "anchor1 \<noteq> closer" "anchor2 \<noteq> closer"
    by (simp_all add: line_defs)
  have g: "glue_free False (readlines closed_page)"
    by (simp add: readlines_closed_page m d)
  have n: "length (filter (\<lambda>l. match_code l \<noteq> None) (readlines closed_page)) = 2"
    by (simp add: readlines_closed_page m match_code_anchor1 match_code_anchor2)
  from anchor_counts_agree [OF g, of "[''A'', ''B'']"] show ?thesis
    by (simp only: n) simp
qed

end
